theory Spec2Isabelle
  imports Main "HOL-Library.Sublist"
begin

section \<open>Characters and strings as Python's \<open>str\<close> and \<open>re\<close> see them\<close>

text \<open>
  Label text is modelled as a list of ASCII characters. The character classes are those of
  Python's \<open>re\<close> module and of \<open>str.strip\<close> on ASCII text: \<open>\s\<close> is the set of the
  code points 9 to 13 and 28 to 32, \<open>\w\<close> is \<open>[a-zA-Z0-9_]\<close>.
\<close>

definition is_space :: "char \<Rightarrow> bool" where
  "is_space c = (let n = (of_char c :: nat) in (9 \<le> n \<and> n \<le> 13) \<or> (28 \<le> n \<and> n \<le> 32))"

definition is_nl :: "char \<Rightarrow> bool" where
  "is_nl c = (c = CHR 0x0A \<or> c = CHR 0x0D)"

definition is_upper :: "char \<Rightarrow> bool" where
  "is_upper c = (let n = (of_char c :: nat) in 65 \<le> n \<and> n \<le> 90)"

definition is_lower :: "char \<Rightarrow> bool" where
  "is_lower c = (let n = (of_char c :: nat) in 97 \<le> n \<and> n \<le> 122)"

definition is_digit :: "char \<Rightarrow> bool" where
  "is_digit c = (let n = (of_char c :: nat) in 48 \<le> n \<and> n \<le> 57)"

definition is_alpha :: "char \<Rightarrow> bool" where
  "is_alpha c = (is_upper c \<or> is_lower c)"

definition is_alnum :: "char \<Rightarrow> bool" where
  "is_alnum c = (is_alpha c \<or> is_digit c)"

definition is_word :: "char \<Rightarrow> bool" where
  "is_word c = (is_alnum c \<or> c = CHR ''_'')"

text \<open>\<open>str.lower\<close> on one ASCII character.\<close>

definition lower_char :: "char \<Rightarrow> char" where
  "lower_char c = (if is_upper c then char_of (of_char c + (32::nat)) else c)"

definition lower :: "string \<Rightarrow> string" where
  "lower s = map lower_char s"

text \<open>\<open>str.strip()\<close>: whitespace removed at both ends.\<close>

definition strip :: "string \<Rightarrow> string" where
  "strip s = rev (dropWhile is_space (rev (dropWhile is_space s)))"

text \<open>\<open>s[i:j]\<close> for \<open>0 \<le> i\<close>; Python clips \<open>j\<close> to the length, as \<open>take\<close> does.\<close>

definition slice :: "nat \<Rightarrow> nat \<Rightarrow> 'a list \<Rightarrow> 'a list" where
  "slice i j s = take (j - i) (drop i s)"

text \<open>
  \<open>starts_with_ci p s\<close>: the literal \<open>p\<close> matches at the start of \<open>s\<close> under
  \<open>re.IGNORECASE\<close>.
\<close>

fun starts_with_ci :: "string \<Rightarrow> string \<Rightarrow> bool" where
  "starts_with_ci [] s = True"
| "starts_with_ci (p # ps) [] = False"
| "starts_with_ci (p # ps) (c # cs) = (lower_char c = lower_char p \<and> starts_with_ci ps cs)"

text \<open>\<open>p in s\<close> on strings: \<open>p\<close> occurs in \<open>s\<close> as a contiguous substring.\<close>

fun contains :: "string \<Rightarrow> string \<Rightarrow> bool" where
  "contains p [] = (p = [])"
| "contains p (c # cs) = (prefix p (c # cs) \<or> contains p cs)"

text \<open>\<open>s.split(d)\<close> for a one-character separator: never an empty list.\<close>

fun split_on :: "char \<Rightarrow> string \<Rightarrow> string list" where
  "split_on d [] = [[]]"
| "split_on d (c # cs) =
     (if c = d then [] # split_on d cs
      else (case split_on d cs of [] \<Rightarrow> [[c]] | p # ps \<Rightarrow> (c # p) # ps))"

section \<open>Text normalisation (\<open>parse_ingredients_from_ocr\<close>, the seven \<open>re.sub\<close> calls)\<close>

text \<open>
  Each \<open>re.sub\<close> is a left-to-right scan that rewrites the leftmost match and resumes
  behind it; a character at which no match starts is copied. The scans below follow that
  discipline for the one pattern each of them embeds.
\<close>

text \<open>
  \<open>re.sub(r"(\w+)\-\s*[\n\r]+\s*(\w+)", r"\1\2", text)\<close>. A match starts at a word
  character, runs over the whole word, a hyphen, a whitespace run holding at least one line
  break, and the whole next word. Where the word is not followed that way, no match starts
  anywhere inside it, so the word is copied.
\<close>

text \<open>Two facts about \<open>dropWhile\<close> that the termination proofs of the scans use.\<close>

lemma dropWhile_Cons_shorter: "h # r = dropWhile P xs \<Longrightarrow> length r < length xs"
proof -
  assume "h # r = dropWhile P xs"
  then have "Suc (length r) = length (dropWhile P xs)"
    by (metis length_Cons)
  then show ?thesis
    using length_dropWhile_le [of P xs] by simp
qed

lemma dropWhile2_shorter: "length (dropWhile P (dropWhile Q xs)) \<le> length xs"
  using length_dropWhile_le [of P "dropWhile Q xs"] length_dropWhile_le [of Q xs] by simp

function join_linebreak_hyphen :: "string \<Rightarrow> string" where
  "join_linebreak_hyphen [] = []"
| "join_linebreak_hyphen (c # cs) =
     (if is_word c then
        (let w = takeWhile is_word (c # cs); r = dropWhile is_word (c # cs) in
         (case r of
            [] \<Rightarrow> w
          | h # r1 \<Rightarrow>
              (let ws = takeWhile is_space r1; r2 = dropWhile is_space r1 in
               if h = CHR ''-'' \<and> (\<exists>x \<in> set ws. is_nl x) \<and> takeWhile is_word r2 \<noteq> []
               then w @ takeWhile is_word r2 @ join_linebreak_hyphen (dropWhile is_word r2)
               else w @ join_linebreak_hyphen r)))
      else c # join_linebreak_hyphen cs)"
  by pat_completeness auto
termination
proof (relation "measure length", goal_cases)
  case 1
  show ?case by simp
next
  case (2 c cs w r h r1 ws r2)
  from 2 have "h # r1 = dropWhile is_word cs"
    by simp
  then have "length r1 < length cs"
    by (rule dropWhile_Cons_shorter)
  moreover have "length (dropWhile is_word (dropWhile is_space r1)) \<le> length r1"
    by (rule dropWhile2_shorter)
  ultimately show ?case using 2 by simp
next
  case (3 c cs w r h r1 ws r2)
  have "length (dropWhile is_word cs) \<le> length cs"
    by (rule length_dropWhile_le)
  then show ?case using 3 by simp
next
  case 4
  show ?case by simp
qed

text \<open>
  \<open>re.sub(r"(\w+)\s+\-\s+(\w+)", r"\1-\2", text)\<close>: a word, whitespace, a hyphen,
  whitespace, a word. The second word is consumed by the match, so it cannot open the
  next one.
\<close>

function join_spaced_hyphen :: "string \<Rightarrow> string" where
  "join_spaced_hyphen [] = []"
| "join_spaced_hyphen (c # cs) =
     (if is_word c then
        (let w = takeWhile is_word (c # cs); r = dropWhile is_word (c # cs);
             ws1 = takeWhile is_space r; r1 = dropWhile is_space r in
         (case r1 of
            [] \<Rightarrow> w @ join_spaced_hyphen r
          | h # r2 \<Rightarrow>
              (let ws2 = takeWhile is_space r2; r3 = dropWhile is_space r2 in
               if ws1 \<noteq> [] \<and> h = CHR ''-'' \<and> ws2 \<noteq> [] \<and> takeWhile is_word r3 \<noteq> []
               then w @ CHR ''-'' # takeWhile is_word r3 @ join_spaced_hyphen (dropWhile is_word r3)
               else w @ join_spaced_hyphen r)))
      else c # join_spaced_hyphen cs)"
  by pat_completeness auto
termination
proof (relation "measure length", goal_cases)
  case 1
  show ?case by simp
next
  case (2 c cs w r ws1 r1)
  have "length (dropWhile is_word cs) \<le> length cs"
    by (rule length_dropWhile_le)
  then show ?case using 2 by simp
next
  case (3 c cs w r ws1 r1 h r2 ws2 r3)
  from 3 have "h # r2 = dropWhile is_space (dropWhile is_word cs)"
    by simp
  then have "length r2 < length (dropWhile is_word cs)"
    by (rule dropWhile_Cons_shorter)
  moreover have "length (dropWhile is_word cs) \<le> length cs"
    by (rule length_dropWhile_le)
  moreover have "length (dropWhile is_word (dropWhile is_space r2)) \<le> length r2"
    by (rule dropWhile2_shorter)
  ultimately show ?case using 3 by simp
next
  case (4 c cs w r ws1 r1 h r2 ws2 r3)
  have "length (dropWhile is_word cs) \<le> length cs"
    by (rule length_dropWhile_le)
  then show ?case using 4 by simp
next
  case 5
  show ?case by simp
qed

text \<open>
  \<open>re.sub(CLASS+, " ", text)\<close> for a character class: every maximal run of the class
  becomes one space. Used for \<open>[\n\r]+\<close> and for \<open>\s+\<close>.
\<close>

function collapse_runs :: "(char \<Rightarrow> bool) \<Rightarrow> string \<Rightarrow> string" where
  "collapse_runs P [] = []"
| "collapse_runs P (c # cs) =
     (if P c then CHR '' '' # collapse_runs P (dropWhile P cs) else c # collapse_runs P cs)"
  by pat_completeness auto
termination
  by (relation "measure (\<lambda>(P, s). length s)") (auto simp: length_dropWhile_le less_Suc_eq_le)

text \<open>\<open>re.sub(r"[;:]", ",", text)\<close>: one comma for each semicolon or colon.\<close>

definition comma_for_separator :: "char \<Rightarrow> char" where
  "comma_for_separator c = (if c = CHR '';'' \<or> c = CHR '':'' then CHR '','' else c)"

definition separators_to_commas :: "string \<Rightarrow> string" where
  "separators_to_commas s = map comma_for_separator s"

text \<open>\<open>re.sub(r"\(\s+", "(", text)\<close>.\<close>

function close_up_after_paren :: "string \<Rightarrow> string" where
  "close_up_after_paren [] = []"
| "close_up_after_paren (c # cs) =
     (if c = CHR ''('' then CHR ''('' # close_up_after_paren (dropWhile is_space cs)
      else c # close_up_after_paren cs)"
  by pat_completeness auto
termination
  by (relation "measure length") (auto simp: length_dropWhile_le less_Suc_eq_le)

text \<open>
  \<open>re.sub(r"\s+\)", ")", text)\<close>: a whitespace run is dropped when a closing parenthesis
  follows it, and copied otherwise.
\<close>

function close_up_before_paren :: "string \<Rightarrow> string" where
  "close_up_before_paren [] = []"
| "close_up_before_paren (c # cs) =
     (if is_space c then
        (case dropWhile is_space cs of
           [] \<Rightarrow> c # takeWhile is_space cs
         | h # r \<Rightarrow>
             (if h = CHR '')'' then CHR '')'' # close_up_before_paren r
              else c # takeWhile is_space cs @ h # close_up_before_paren r))
      else c # close_up_before_paren cs)"
  by pat_completeness auto
termination
proof (relation "measure length", goal_cases)
  case 1
  show ?case by simp
next
  case (2 c cs h r)
  have "length (dropWhile is_space cs) \<le> length cs"
    by (rule length_dropWhile_le)
  then show ?case using 2 by simp
next
  case (3 c cs h r)
  have "length (dropWhile is_space cs) \<le> length cs"
    by (rule length_dropWhile_le)
  then show ?case using 3 by simp
next
  case 4
  show ?case by simp
qed

text \<open>Lines 214 to 220 of \<open>parse_ingredients_from_ocr\<close>, in the order of the source.\<close>

definition normalize_text :: "string \<Rightarrow> string" where
  "normalize_text t =
     close_up_before_paren (close_up_after_paren (separators_to_commas
       (collapse_runs is_space (collapse_runs is_nl
         (join_spaced_hyphen (join_linebreak_hyphen t))))))"

section \<open>Section extraction (\<open>parse_ingredients_from_ocr\<close>, lines 198 to 212)\<close>

text \<open>
  The three header patterns share their tail: a lazy group \<open>(.*?)\<close> that ends at the first
  position where the lookahead \<open>(?=\b(?:directions|use|...)\b|\Z)\<close> holds. Every stop
  keyword starts and ends with a letter, so \<open>\b\<close> in front of it asks for no word character
  before, and \<open>\b\<close> behind it for no word character after.
\<close>

definition stop_keywords :: "string list" where
  "stop_keywords = [''directions'', ''use'', ''warning'', ''caution'', ''disclaimer'',
     ''made in'', ''for external use'', ''how to use'']"

definition stop_here :: "char option \<Rightarrow> string \<Rightarrow> bool" where
  "stop_here prev s =
     ((case prev of None \<Rightarrow> True | Some p \<Rightarrow> \<not> is_word p) \<and>
      (\<exists>kw \<in> set stop_keywords. starts_with_ci kw s \<and>
          (case drop (length kw) s of [] \<Rightarrow> True | n # _ \<Rightarrow> \<not> is_word n)))"

fun until_stop :: "char option \<Rightarrow> string \<Rightarrow> string" where
  "until_stop prev [] = []"
| "until_stop prev (c # cs) = (if stop_here prev (c # cs) then [] else c # until_stop (Some c) cs)"

text \<open>
  What follows the header word: \<open>\s*[:\-;]?\s*\<close> in the first pattern (\<open>ws_first\<close>),
  \<open>[s]?[:\-;]?\s*\<close> in the second (\<open>opt_s\<close>), \<open>[:\-;]?\s*\<close> in the third. All
  quantifiers are greedy and the lazy group can always be completed at the end of the text, so
  the first choice of the scanner stands. The result is the group's text; \<open>last_ch\<close> is the
  character in front of the position reached, for the \<open>\b\<close> of the lookahead.
\<close>

definition is_header_sep :: "char \<Rightarrow> bool" where
  "is_header_sep c = (c = CHR '':'' \<or> c = CHR ''-'' \<or> c = CHR '';'')"

definition capture_after :: "bool \<Rightarrow> bool \<Rightarrow> char \<Rightarrow> string \<Rightarrow> string" where
  "capture_after ws_first opt_s last_ch s =
     (let (l0, s0) = (if ws_first \<and> takeWhile is_space s \<noteq> []
                      then (last (takeWhile is_space s), dropWhile is_space s) else (last_ch, s));
          (l1, s1) = (case s0 of c # r \<Rightarrow> if opt_s \<and> lower_char c = CHR ''s'' then (c, r) else (l0, s0)
                       | [] \<Rightarrow> (l0, s0));
          (l2, s2) = (case s1 of c # r \<Rightarrow> if is_header_sep c then (c, r) else (l1, s1)
                       | [] \<Rightarrow> (l1, s1));
          (l3, s3) = (if takeWhile is_space s2 \<noteq> []
                      then (last (takeWhile is_space s2), dropWhile is_space s2) else (l2, s2))
      in until_stop (Some l3) s3)"

text \<open>
  \<open>re.search(pattern, ocr_text, re.IGNORECASE | re.DOTALL)\<close> followed by \<open>match.group(1)\<close>:
  the leftmost place where the header word occurs; \<open>None\<close> when it occurs nowhere.
\<close>

fun search_header :: "string \<Rightarrow> bool \<Rightarrow> bool \<Rightarrow> string \<Rightarrow> string option" where
  "search_header hdr ws_first opt_s [] = None"
| "search_header hdr ws_first opt_s (c # cs) =
     (if starts_with_ci hdr (c # cs)
      then Some (capture_after ws_first opt_s (last (take (length hdr) (c # cs)))
                   (drop (length hdr) (c # cs)))
      else search_header hdr ws_first opt_s cs)"

text \<open>
  The loop over \<open>ingredient_patterns\<close> stops at the first pattern that matches, also when its
  group is empty; an empty span falls back to the whole text.
\<close>

definition extract_span :: "string \<Rightarrow> string" where
  "extract_span ocr_text =
     (let found =
        (case search_header ''ingredients'' True False ocr_text of
           Some g \<Rightarrow> Some (strip g)
         | None \<Rightarrow>
            (case search_header ''ingredient'' False True ocr_text of
               Some g \<Rightarrow> Some (strip g)
             | None \<Rightarrow>
                (case search_header ''contains'' False False ocr_text of
                   Some g \<Rightarrow> Some (strip g)
                 | None \<Rightarrow> None)))
      in (case found of None \<Rightarrow> ocr_text | Some g \<Rightarrow> if g = [] then ocr_text else g))"

section \<open>Segmentation (lines 222 to 289)\<close>

definition common_abbrev :: "string list" where
  "common_abbrev = [''vit.'', ''var.'', ''spp.'', ''sp.'', ''subsp.'', ''vol.'', ''no.'', ''dr.'', ''st.'']"

text \<open>
  \<open>pattern.sub(lambda m: m.group().replace(".", "@"), protected_item)\<close> for one
  abbreviation, matched as a literal without regard to case.
\<close>

function protect_abbrev :: "string \<Rightarrow> string \<Rightarrow> string" where
  "protect_abbrev a [] = []"
| "protect_abbrev a (c # cs) =
     (if a \<noteq> [] \<and> starts_with_ci a (c # cs)
      then map (\<lambda>x. if x = CHR ''.'' then CHR ''@'' else x) (take (length a) (c # cs))
             @ protect_abbrev a (drop (length a) (c # cs))
      else c # protect_abbrev a cs)"
  by pat_completeness auto
termination
  by (relation "measure (\<lambda>(a, s). length s)") auto

definition protect_all :: "string \<Rightarrow> string" where
  "protect_all item = fold protect_abbrev common_abbrev item"

text \<open>
  \<open>re.split(r"(\.\s+)(?=[A-Z])", protected_item)\<close>: pieces at the even positions,
  separators (a period and the whitespace run behind it, in front of a capital) at the odd
  ones.
\<close>

function split_by_period :: "string \<Rightarrow> string list" where
  "split_by_period [] = [[]]"
| "split_by_period (c # cs) =
     (if c = CHR ''.'' \<and> takeWhile is_space cs \<noteq> [] \<and>
         (case dropWhile is_space cs of [] \<Rightarrow> False | u # _ \<Rightarrow> is_upper u)
      then [] # (c # takeWhile is_space cs) # split_by_period (dropWhile is_space cs)
      else (case split_by_period cs of [] \<Rightarrow> [[c]] | p # ps \<Rightarrow> (c # p) # ps))"
  by pat_completeness auto
termination
  by (relation "measure length") (auto simp: length_dropWhile_le less_Suc_eq_le)

text \<open>
  The loop \<open>for i in range(0, len(split_by_period), 2)\<close>: each piece that has a separator
  behind it gets its period back.
\<close>

fun period_parts :: "string list \<Rightarrow> string list" where
  "period_parts [] = []"
| "period_parts [p] = [p]"
| "period_parts (p # sep # rest) = (p @ ''.'') # period_parts rest"

text \<open>
  \<open>re.finditer(r"([a-z])([A-Z][a-z])", part)\<close>: the start positions of the matches, which
  do not overlap.
\<close>

fun seam_matches :: "nat \<Rightarrow> string \<Rightarrow> nat list" where
  "seam_matches i (a # b # c # rest) =
     (if is_lower a \<and> is_upper b \<and> is_lower c then i # seam_matches (i + 3) rest
      else seam_matches (i + 1) (b # c # rest))"
| "seam_matches i s = []"

definition guard_prefixes :: "string list" where
  "guard_prefixes = [''di'', ''tri'', ''tetra'', ''poly'', ''mono'', ''iso'']"

definition guard_terms :: "string list" where
  "guard_terms = [''vitamin'', ''extract'', ''oil'']"

text \<open>The three \<open>continue\<close> guards of the loop over the matches, for the index \<open>idx\<close>.\<close>

definition valid_split :: "string \<Rightarrow> nat \<Rightarrow> bool" where
  "valid_split part idx =
     (\<not> (count_list (take idx part) (CHR ''('') > count_list (take idx part) (CHR '')'')) \<and>
      \<not> (\<exists>p \<in> set guard_prefixes. contains p (lower (slice (idx - 6) idx part))) \<and>
      \<not> (\<exists>p \<in> set guard_terms.
            contains p (lower (slice (idx - 10) (min (length part) (idx + 10)) part))))"

text \<open>The loop over \<open>valid_splits\<close> with its running \<open>start_idx\<close>, and the last piece.\<close>

fun cut_at :: "nat \<Rightarrow> nat list \<Rightarrow> string \<Rightarrow> string list" where
  "cut_at start_idx [] part =
     (if start_idx < length part then [strip (drop start_idx part)] else [])"
| "cut_at start_idx (idx # idxs) part =
     (let subpart = strip (slice start_idx idx part)
      in (if subpart \<noteq> [] then [subpart] else []) @ cut_at idx idxs part)"

definition split_fused :: "string \<Rightarrow> string list" where
  "split_fused part =
     (let matches = seam_matches 0 part in
      if matches \<noteq> [] then
        (let valid_splits = filter (valid_split part) (map (\<lambda>m. m + 1) matches)
         in if valid_splits \<noteq> [] then cut_at 0 valid_splits part else [part])
      else [part])"

text \<open>The body of the loop over \<open>comma_split\<close> for one item that is long enough.\<close>

definition process_item :: "string \<Rightarrow> string list" where
  "process_item item =
     (let protected_item = protect_all item;
          parts0 = period_parts (split_by_period protected_item);
          parts = (if parts0 = [] then [protected_item] else parts0)
      in concat (map (\<lambda>part. split_fused (map (\<lambda>x. if x = CHR ''@'' then CHR ''.'' else x) part))
                     parts))"

definition processed_items :: "string \<Rightarrow> string list" where
  "processed_items ingredients_text =
     concat (map process_item
       (filter (\<lambda>item. \<not> (item = [] \<or> length item \<le> 2))
          (map strip (split_on (CHR '','') ingredients_text))))"

section \<open>Final cleaning (lines 291 to 303)\<close>

definition lead_ok :: "char \<Rightarrow> bool" where
  "lead_ok c = (is_alnum c \<or> c = CHR ''('')"

definition trail_ok :: "char \<Rightarrow> bool" where
  "trail_ok c = (is_alnum c \<or> c = CHR '')'')"

text \<open>
  \<open>re.sub(r"^[^a-zA-Z0-9(]+|[^a-zA-Z0-9)]+$", "", ing)\<close>: the first alternative can match
  at the start only and takes the whole leading run; the second takes the longest run that
  reaches the end, from what is left.
\<close>

definition strip_ends :: "string \<Rightarrow> string" where
  "strip_ends ing =
     rev (dropWhile (\<lambda>c. \<not> trail_ok c) (rev (dropWhile (\<lambda>c. \<not> lead_ok c) ing)))"

text \<open>
  \<open>re.sub(r"([A-Za-z])X([0-9])", r"\1-\2", ing)\<close> for the letter \<open>X\<close>, which is \<open>l\<close> on
  line 297 and \<open>O\<close> on line 298.
\<close>

fun fix_confusion :: "char \<Rightarrow> string \<Rightarrow> string" where
  "fix_confusion x (a # b # c # rest) =
     (if is_alpha a \<and> b = x \<and> is_digit c then a # CHR ''-'' # c # fix_confusion x rest
      else a # fix_confusion x (b # c # rest))"
| "fix_confusion x s = s"

definition clean :: "string \<Rightarrow> string" where
  "clean ing =
     fix_confusion (CHR ''O'') (fix_confusion (CHR ''l'')
       (collapse_runs is_space (strip_ends (strip ing))))"

definition final_ingredients :: "string list \<Rightarrow> string list" where
  "final_ingredients items = filter (\<lambda>ing. ing \<noteq> [] \<and> length ing > 1) (map clean items)"

section \<open>\<open>parse_ingredients_from_ocr\<close>\<close>

definition parse_span :: "string \<Rightarrow> string list" where
  "parse_span ingredients_text = final_ingredients (processed_items (normalize_text ingredients_text))"

definition parse_ingredients_from_ocr :: "string \<Rightarrow> string list" where
  "parse_ingredients_from_ocr ocr_text =
     (if ocr_text = [] then [] else parse_span (extract_span ocr_text))"

section \<open>The reference service client (\<open>EWGSkindeepAPI\<close>)\<close>

text \<open>
  The service is a collaborator behind HTTP. A response to a search is a status code and
  the \<open>.product-tile\<close> elements of the page that carry a \<open>.product-name\<close>, each reduced to
  what \<open>find_matches\<close> reads from it: the stripped name and the absolute link, if any. A
  response to an ingredient page is a status code and what \<open>extract_score\<close> and
  \<open>extract_concerns\<close> scrape from it. The service answers every request and answers equal
  requests alike; an exception raised by the transport is outside this model.
\<close>

record entry =
  entry_name :: string
  entry_url :: "string option"

record page_info =
  page_score_range :: "string option"
  page_data_level :: "string option"
  page_concerns :: "(string \<times> string) list"

record service =
  search_results :: "string \<Rightarrow> nat \<times> entry list"
  ingredient_page :: "string \<Rightarrow> nat \<times> page_info"

definition search_ingredient :: "service \<Rightarrow> string \<Rightarrow> nat \<times> entry list option" where
  "search_ingredient svc search_term =
     (let (status_code, tiles) = search_results svc search_term
      in if status_code = 200 then (status_code, Some tiles) else (status_code, None))"

definition get_ingredient_page :: "service \<Rightarrow> string \<Rightarrow> nat \<times> page_info option" where
  "get_ingredient_page svc url =
     (let (status_code, info) = ingredient_page svc url
      in if status_code = 200 then (status_code, Some info) else (status_code, None))"

text \<open>Python's truth value of a variable that holds \<open>None\<close> or a string.\<close>

definition truthy :: "string option \<Rightarrow> bool" where
  "truthy v = (case v of None \<Rightarrow> False | Some s \<Rightarrow> s \<noteq> [])"

text \<open>
  The loop of \<open>find_matches\<close> over the products. \<open>Inl\<close> is the early return at a name
  equal to the search term without regard to case; \<open>Inr\<close> is the state at the end of the
  loop: \<open>best_match\<close>, \<open>best_match_link\<close> and \<open>all_matches\<close>.
\<close>

fun scan_products ::
  "string \<Rightarrow> entry list \<Rightarrow> entry list \<Rightarrow> string option \<Rightarrow> string option \<Rightarrow>
     (string option \<times> string option \<times> entry list) + (string option \<times> string option \<times> entry list)"
where
  "scan_products term_n [] all_matches best_match best_link = Inr (best_match, best_link, all_matches)"
| "scan_products term_n (p # ps) all_matches best_match best_link =
     (let all_matches' = all_matches @ [p]; product_name_normalized = lower (entry_name p) in
      if term_n = product_name_normalized
        then Inl (Some (entry_name p), entry_url p, all_matches')
      else if contains term_n product_name_normalized \<and> \<not> truthy best_match
        then scan_products term_n ps all_matches' (Some (entry_name p)) (entry_url p)
      else scan_products term_n ps all_matches' best_match best_link)"

definition find_matches ::
  "entry list \<Rightarrow> string \<Rightarrow> bool \<Rightarrow> string option \<times> string option \<times> entry list" where
  "find_matches soup search_term exact_match_only =
     (case scan_products (lower search_term) soup [] None None of
        Inl r \<Rightarrow> r
      | Inr (best_match, best_link, all_matches) \<Rightarrow>
          if exact_match_only then (None, None, all_matches)
          else if truthy best_match then (best_match, best_link, all_matches)
          else (case all_matches of
                  e # _ \<Rightarrow> (Some (entry_name e), entry_url e, all_matches)
                | [] \<Rightarrow> (None, None, all_matches)))"

text \<open>
  \<open>Levenshtein.ratio(a, b)\<close> is the library's similarity \<open>(len(a) + len(b) - d) / (len(a) +
  len(b))\<close>, where \<open>d\<close> is the edit distance with insertions and deletions at cost 1 and
  substitutions at cost 2, that is \<open>len(a) + len(b)\<close> minus twice the length of a longest
  common subsequence; two empty strings have ratio 1. The comparison \<open>ratio > 0.9\<close> is
  written over the integers.
\<close>

fun lcs_length :: "string \<Rightarrow> string \<Rightarrow> nat" where
  "lcs_length [] ys = 0"
| "lcs_length (x # xs) [] = 0"
| "lcs_length (x # xs) (y # ys) =
     (if x = y then Suc (lcs_length xs ys)
      else max (lcs_length (x # xs) ys) (lcs_length xs (y # ys)))"

definition ratio_above_09 :: "string \<Rightarrow> string \<Rightarrow> bool" where
  "ratio_above_09 a b =
     (let lensum = length a + length b
      in if lensum = 0 then True else 10 * (2 * lcs_length a b) > 9 * lensum)"

datatype data_error = SearchFailed nat | NoSuitableMatch string | PageFailed nat

text \<open>
  The dictionary built by \<open>get_ingredient_data\<close>; a key that the source may leave out is an
  \<open>option\<close>. \<open>data_match_type\<close> is the key \<open>match_type\<close> that \<open>analyze_ingredient\<close> adds.
\<close>

record ingredient_data =
  search_term :: string
  ingredient_found :: bool
  info_name :: "string option"
  info_url :: "string option"
  info_score_range :: "string option"
  info_data_level :: "string option"
  info_concerns :: "(string \<times> string) list option"
  all_matches :: "entry list"
  error :: "data_error option"
  exact_match :: "bool option"
  data_match_type :: "string option"

definition get_ingredient_data :: "service \<Rightarrow> string \<Rightarrow> bool \<Rightarrow> ingredient_data" where
  "get_ingredient_data svc term exact_match_only =
     (let result = \<lparr>search_term = term, ingredient_found = False, info_name = None,
                     info_url = None, info_score_range = None, info_data_level = None,
                     info_concerns = None, all_matches = [], error = None, exact_match = None,
                     data_match_type = None\<rparr>
      in case search_ingredient svc term of
           (status_code, None) \<Rightarrow> result\<lparr>error := Some (SearchFailed status_code)\<rparr>
         | (status_code, Some search_soup) \<Rightarrow>
             if status_code \<noteq> 200 then result\<lparr>error := Some (SearchFailed status_code)\<rparr>
             else
               (case find_matches search_soup term exact_match_only of
                  (ingredient_name, ingredient_url, matches) \<Rightarrow>
                    (let result1 = result\<lparr>all_matches := matches\<rparr> in
                     if \<not> truthy ingredient_name \<or> \<not> truthy ingredient_url
                     then result1\<lparr>error := Some (NoSuitableMatch term)\<rparr>
                     else
                       (let result2 = result1\<lparr>ingredient_found := True,
                                   info_name := ingredient_name, info_url := ingredient_url,
                                   exact_match := Some (ratio_above_09 term (the ingredient_name))\<rparr>
                        in case get_ingredient_page svc (the ingredient_url) of
                             (status2, None) \<Rightarrow> result2\<lparr>error := Some (PageFailed status2)\<rparr>
                           | (status2, Some page) \<Rightarrow>
                               if status2 \<noteq> 200 then result2\<lparr>error := Some (PageFailed status2)\<rparr>
                               else result2\<lparr>
                                 info_score_range :=
                                   (if truthy (page_score_range page) then page_score_range page else None),
                                 info_data_level :=
                                   (if truthy (page_data_level page) then page_data_level page else None),
                                 info_concerns :=
                                   (if page_concerns page \<noteq> [] then Some (page_concerns page) else None)\<rparr>))))"

text \<open>\<open>result.get("exact_match", False)\<close>.\<close>

definition get_exact_match :: "ingredient_data \<Rightarrow> bool" where
  "get_exact_match result = (case exact_match result of None \<Rightarrow> False | Some b \<Rightarrow> b)"

text \<open>The test \<open>result["ingredient_found"] and result.get("exact_match", False)\<close>.\<close>

definition exact_hit :: "ingredient_data \<Rightarrow> bool" where
  "exact_hit result = (ingredient_found result \<and> get_exact_match result)"

definition analyze_ingredient :: "service \<Rightarrow> string \<Rightarrow> ingredient_data" where
  "analyze_ingredient svc ingredient =
     (let result = get_ingredient_data svc ingredient True
      in if exact_hit result
         then result\<lparr>data_match_type := Some ''exact''\<rparr>
         else result\<lparr>data_match_type := Some ''no_exact_match''\<rparr>)"

section \<open>Reconciliation (\<open>smart_analyze\<close>, \<open>smart_analyze_list\<close>)\<close>

record match_result =
  original :: string
  corrected :: "string option"
  match_type :: string
  data :: "ingredient_data option"

text \<open>\<open>re.split(r"[\s,/\-]+", ingredient)\<close>: the pieces between the separator runs.\<close>

definition is_word_sep :: "char \<Rightarrow> bool" where
  "is_word_sep c = (is_space c \<or> c = CHR '','' \<or> c = CHR ''/'' \<or> c = CHR ''-'')"

function split_runs :: "(char \<Rightarrow> bool) \<Rightarrow> string \<Rightarrow> string list" where
  "split_runs P [] = [[]]"
| "split_runs P (c # cs) =
     (if P c then [] # split_runs P (dropWhile P cs)
      else (case split_runs P cs of [] \<Rightarrow> [[c]] | p # ps \<Rightarrow> (c # p) # ps))"
  by pat_completeness auto
termination
  by (relation "measure (\<lambda>(P, s). length s)") (auto simp: length_dropWhile_le less_Suc_eq_le)

definition split_words :: "string \<Rightarrow> string list" where
  "split_words ingredient =
     filter (\<lambda>w. length w > 2 \<and> lower w \<notin> set [''and'', ''with'', ''plus'', ''the''])
       (split_runs is_word_sep ingredient)"

text \<open>The loop over \<open>words\<close> that collects \<open>found_matches\<close>.\<close>

fun found_matches :: "service \<Rightarrow> string list \<Rightarrow> match_result list" where
  "found_matches svc [] = []"
| "found_matches svc (word # words) =
     (let result = analyze_ingredient svc word in
      (if exact_hit result
       then [\<lparr>original = word, corrected = Some word, match_type = ''split_exact'',
               data = Some result\<rparr>]
       else []) @ found_matches svc words)"

text \<open>
  \<open>smart_analyze\<close>. The results of \<open>test3.smart_analyze\<close> and of
  \<open>IngredientAnalyzer.smart_analyze\<close> are the same function of the service's answers; the
  two differ in the client object that sends the last query.
\<close>

definition no_match_result :: "string \<Rightarrow> match_result" where
  "no_match_result ingredient =
     \<lparr>original = ingredient, corrected = None, match_type = ''no_match'', data = None\<rparr>"

definition fuzzy_or_none :: "service \<Rightarrow> string \<Rightarrow> string \<Rightarrow> match_result" where
  "fuzzy_or_none svc kind ingredient =
     (let result = get_ingredient_data svc ingredient False in
      if ingredient_found result
      then \<lparr>original = ingredient, corrected = info_name result, match_type = kind,
             data = Some result\<rparr>
      else no_match_result ingredient)"

definition smart_analyze :: "service \<Rightarrow> string \<Rightarrow> match_result" where
  "smart_analyze svc ingredient =
     (let result = analyze_ingredient svc ingredient in
      if exact_hit result
      then \<lparr>original = ingredient, corrected = Some ingredient, match_type = ''exact'',
             data = Some result\<rparr>
      else
        (let words = split_words ingredient;
             found = (if length words > 1 then found_matches svc words else [])
         in case found of
              m # _ \<Rightarrow> m
            | [] \<Rightarrow> fuzzy_or_none svc ''fuzzy'' ingredient))"

text \<open>Phase 1 of \<open>smart_analyze_list\<close>: the pair of \<open>results\<close> and \<open>unmatched\<close>.\<close>

fun phase1 :: "service \<Rightarrow> string list \<Rightarrow> match_result list \<times> string list" where
  "phase1 svc [] = ([], [])"
| "phase1 svc (ingredient # rest) =
     (let result = smart_analyze svc ingredient; (results, unmatched) = phase1 svc rest in
      if match_type result \<in> set [''exact'', ''fuzzy'']
      then (result # results, unmatched)
      else (results, ingredient # unmatched))"

text \<open>The test that phase 1 applies to the result of \<open>smart_analyze\<close> for a token.\<close>

definition resolved :: "service \<Rightarrow> string \<Rightarrow> bool" where
  "resolved svc ingredient = (match_type (smart_analyze svc ingredient) \<in> set [''exact'', ''fuzzy''])"

text \<open>
  The first \<open>while\<close> loop of phase 2, from the index \<open>i\<close>: the results it appends and the
  index at which it stops.
\<close>

function combine_loop :: "service \<Rightarrow> string list \<Rightarrow> nat \<Rightarrow> match_result list \<times> nat" where
  "combine_loop svc unmatched i =
     (if i + 1 < length unmatched then
        (let combined = unmatched ! i @ '' '' @ unmatched ! (i + 1);
             combined_result = analyze_ingredient svc combined in
         if exact_hit combined_result
         then (let (rs, j) = combine_loop svc unmatched (i + 2) in
               (\<lparr>original = unmatched ! i @ '' + '' @ unmatched ! (i + 1),
                 corrected = Some combined, match_type = ''combined_exact'',
                 data = Some combined_result\<rparr> # rs, j))
         else
           (let combined_comma = unmatched ! i @ '', '' @ unmatched ! (i + 1);
                comma_result = analyze_ingredient svc combined_comma in
            if exact_hit comma_result
            then (let (rs, j) = combine_loop svc unmatched (i + 2) in
                  (\<lparr>original = unmatched ! i @ '' + '' @ unmatched ! (i + 1),
                    corrected = Some combined_comma, match_type = ''combined_comma_exact'',
                    data = Some comma_result\<rparr> # rs, j))
            else combine_loop svc unmatched (i + 1)))
      else ([], i))"
  by pat_completeness auto
termination
  by (relation "measure (\<lambda>(svc, unmatched, i). length unmatched - i)") auto

declare combine_loop.simps [simp del]

text \<open>The second \<open>while\<close> loop of phase 2, from the index at which the first one stopped.\<close>

function final_loop :: "service \<Rightarrow> string list \<Rightarrow> nat \<Rightarrow> match_result list" where
  "final_loop svc unmatched i =
     (if i < length unmatched
      then fuzzy_or_none svc ''final_fuzzy'' (unmatched ! i) # final_loop svc unmatched (i + 1)
      else [])"
  by pat_completeness auto
termination
  by (relation "measure (\<lambda>(svc, unmatched, i). length unmatched - i)") auto

declare final_loop.simps [simp del]

definition smart_analyze_list :: "service \<Rightarrow> string list \<Rightarrow> match_result list" where
  "smart_analyze_list svc ingredient_list =
     (let (results, unmatched) = phase1 svc ingredient_list in
      if length unmatched \<ge> 2
      then (let (combined, i) = combine_loop svc unmatched 0
            in results @ combined @ final_loop svc unmatched i)
      else results)"

section \<open>\<open>remove_non_ingredients\<close> (the 0.1 pipeline, \<open>img2text6.py\<close>)\<close>

text \<open>
  The nine \<open>non_ingredient_patterns\<close>, each tried by \<open>re.search\<close> under
  \<open>re.IGNORECASE\<close>. All of them are anchored at the start. \<open>$\<close> holds at the end of the
  string and in front of a line feed that ends it.
\<close>

definition at_end :: "string \<Rightarrow> bool" where
  "at_end rest = (rest = [] \<or> rest = [CHR 0x0A])"

definition is_numdot :: "char \<Rightarrow> bool" where
  "is_numdot c = (is_digit c \<or> c = CHR ''.'')"

definition word_alone :: "string \<Rightarrow> string \<Rightarrow> bool" where
  "word_alone w ing = (starts_with_ci w ing \<and> at_end (drop (length w) ing))"

definition non_ingredient :: "string \<Rightarrow> bool" where
  "non_ingredient ing =
     ((takeWhile is_numdot ing \<noteq> [] \<and> at_end (dropWhile is_numdot ing)) \<or>
      (takeWhile is_numdot ing \<noteq> [] \<and>
         (case dropWhile is_space (dropWhile is_numdot ing) of
            [] \<Rightarrow> False | p # rest \<Rightarrow> p = CHR ''%'' \<and> at_end rest)) \<or>
      (starts_with_ci ''may'' ing \<and> takeWhile is_space (drop 3 ing) \<noteq> [] \<and>
         starts_with_ci ''contain'' (dropWhile is_space (drop 3 ing))) \<or>
      word_alone ''and'' ing \<or>
      word_alone ''contains'' ing \<or>
      word_alone ''ingredients'' ing \<or>
      (word_alone ''warning'' ing \<or> word_alone ''warnings'' ing) \<or>
      starts_with_ci ''caution'' ing \<or>
      starts_with_ci ''direction'' ing)"

text \<open>The loop that removes duplicates, with its set \<open>seen\<close> of lower-cased tokens.\<close>

fun unique_ingredients :: "string set \<Rightarrow> string list \<Rightarrow> string list" where
  "unique_ingredients seen [] = []"
| "unique_ingredients seen (ing # rest) =
     (if lower ing \<notin> seen then ing # unique_ingredients (insert (lower ing) seen) rest
      else unique_ingredients seen rest)"

definition remove_non_ingredients :: "string list \<Rightarrow> string list" where
  "remove_non_ingredients ingredients_list =
     filter (\<lambda>ing. \<not> non_ingredient ing \<and> length ing \<ge> 2)
       (unique_ingredients {} ingredients_list)"

section \<open>The rate limiter (\<open>EWGSkindeepAPI._make_request\<close>) and the requests of one token\<close>

text \<open>
  Time is counted in milliseconds on the clock that \<open>time.time()\<close> reads. A client object
  holds \<open>rate_limit\<close> and \<open>last_request_time\<close>; the world outside holds the clock and the
  times at which requests left, in order. \<open>time.sleep(d)\<close> advances the clock by \<open>d\<close>; a
  request takes \<open>latency\<close> from leaving to its response.
\<close>

record api_client =
  rate_limit :: int
  last_request_time :: int

record world =
  now :: int
  sent :: "int list"

text \<open>\<open>EWGSkindeepAPI(rate_limit=1)\<close>: one second, and no request made yet.\<close>

definition new_client :: api_client where
  "new_client = \<lparr>rate_limit = 1000, last_request_time = 0\<rparr>"

definition make_request :: "int \<Rightarrow> api_client \<Rightarrow> world \<Rightarrow> api_client \<times> world" where
  "make_request latency api w =
     (let elapsed = now w - last_request_time api;
          w1 = (if elapsed < rate_limit api then w\<lparr>now := now w + (rate_limit api - elapsed)\<rparr> else w);
          w2 = w1\<lparr>sent := sent w1 @ [now w1], now := now w1 + latency\<rparr>
      in (api\<lparr>last_request_time := now w2\<rparr>, w2))"

text \<open>
  The requests of \<open>get_ingredient_data\<close>: the search, and the ingredient page when a match
  with a link was found. The result is the one of the untimed function.
\<close>

definition get_ingredient_data_timed ::
  "service \<Rightarrow> int \<Rightarrow> string \<Rightarrow> bool \<Rightarrow> api_client \<Rightarrow> world \<Rightarrow> ingredient_data \<times> api_client \<times> world"
where
  "get_ingredient_data_timed svc latency term exact_match_only api w =
     (let (api1, w1) = make_request latency api w;
          result = get_ingredient_data svc term exact_match_only
      in if ingredient_found result
         then (let (api2, w2) = make_request latency api1 w1 in (result, api2, w2))
         else (result, api1, w1))"

definition analyze_ingredient_timed ::
  "service \<Rightarrow> int \<Rightarrow> string \<Rightarrow> api_client \<Rightarrow> world \<Rightarrow> ingredient_data \<times> api_client \<times> world"
where
  "analyze_ingredient_timed svc latency ingredient api w =
     (let (result, api1, w1) = get_ingredient_data_timed svc latency ingredient True api w
      in (analyze_ingredient svc ingredient, api1, w1))"

fun analyze_words_timed ::
  "service \<Rightarrow> int \<Rightarrow> string list \<Rightarrow> api_client \<Rightarrow> world \<Rightarrow> api_client \<times> world" where
  "analyze_words_timed svc latency [] api w = (api, w)"
| "analyze_words_timed svc latency (word # words) api w =
     (let (result, api1, w1) = analyze_ingredient_timed svc latency word api w
      in analyze_words_timed svc latency words api1 w1)"

text \<open>
  \<open>smart_analyze\<close> with its requests. \<open>fresh_client\<close> tells the two versions apart:
  \<open>test3.smart_analyze\<close> sends the fuzzy query through a new \<open>EWGSkindeepAPI()\<close> (line
  339), \<open>IngredientAnalyzer.smart_analyze\<close> through the client it was given.
\<close>

definition smart_analyze_timed ::
  "bool \<Rightarrow> service \<Rightarrow> int \<Rightarrow> string \<Rightarrow> api_client \<Rightarrow> world \<Rightarrow> match_result \<times> api_client \<times> world"
where
  "smart_analyze_timed fresh_client svc latency ingredient ewg w =
     (let (result, ewg1, w1) = analyze_ingredient_timed svc latency ingredient ewg w in
      if exact_hit result then (smart_analyze svc ingredient, ewg1, w1)
      else
        (let words = split_words ingredient;
             (ewg2, w2) = (if length words > 1 then analyze_words_timed svc latency words ewg1 w1
                           else (ewg1, w1))
         in if length words > 1 \<and> found_matches svc words \<noteq> []
            then (smart_analyze svc ingredient, ewg2, w2)
            else if fresh_client
              then (let (r, other, w3) =
                          get_ingredient_data_timed svc latency ingredient False new_client w2
                    in (smart_analyze svc ingredient, ewg2, w3))
              else (let (r, ewg3, w3) =
                          get_ingredient_data_timed svc latency ingredient False ewg2 w2
                    in (smart_analyze svc ingredient, ewg3, w3))))"

text \<open>The gaps between consecutive entries of a list of send times.\<close>

fun gaps :: "int list \<Rightarrow> int list" where
  "gaps (a # b # rest) = (b - a) # gaps (b # rest)"
| "gaps ts = []"

section \<open>A small service for concrete runs\<close>

text \<open>
  A service that knows four records and answers a search with the records listed for that
  exact query string; every ingredient page is served with status 200.
\<close>

definition demo_entry :: "string \<Rightarrow> entry" where
  "demo_entry n = \<lparr>entry_name = n, entry_url = Some (''https://www.ewg.org/skindeep/ingredients/'' @ n)\<rparr>"

definition demo_service :: service where
  "demo_service =
     \<lparr>search_results = (\<lambda>q.
         if q = ''Water'' then (200, [demo_entry ''Water''])
         else if q = ''Talc'' then (200, [demo_entry ''TALC''])
         else if q = ''Glyceryl Stearate'' then (200, [demo_entry ''Glyceryl Stearate''])
         else if q = ''Zinc'' \<or> q = ''PCA'' \<or> q = ''Zinc PCA''
           then (200, [demo_entry ''Zinc PCA''])
         else (200, [])),
      ingredient_page = (\<lambda>u. (200, \<lparr>page_score_range = Some ''1-1'', page_data_level = Some ''Fair'',
                                        page_concerns = []\<rparr>))\<rparr>"

section \<open>Properties of the final cleaning\<close>

lemma lead_ok_not_space: "lead_ok c \<Longrightarrow> \<not> is_space c"
  by (auto simp: lead_ok_def is_alnum_def is_alpha_def is_upper_def is_lower_def is_digit_def
      is_space_def Let_def)

lemma trail_ok_not_space: "trail_ok c \<Longrightarrow> \<not> is_space c"
  by (auto simp: trail_ok_def is_alnum_def is_alpha_def is_upper_def is_lower_def is_digit_def
      is_space_def Let_def)

lemma strip_ends_shape:
  "strip_ends s = [] \<or> (lead_ok (hd (strip_ends s)) \<and> trail_ok (last (strip_ends s)))"
proof -
  define r where "r = dropWhile (\<lambda>c. \<not> lead_ok c) s"
  define q where "q = dropWhile (\<lambda>c. \<not> trail_ok c) (rev r)"
  have res: "strip_ends s = rev q"
    by (simp add: strip_ends_def r_def q_def)
  show ?thesis
  proof (cases "q = []")
    case True
    then show ?thesis by (simp add: res)
  next
    case False
    then have "trail_ok (hd q)"
      unfolding q_def using hd_dropWhile [of "\<lambda>c. \<not> trail_ok c" "rev r"] by simp
    then have l: "trail_ok (last (rev q))"
      using False by (simp add: last_rev)
    have "suffix q (rev r)"
      unfolding q_def by (rule suffix_dropWhile)
    then obtain p where p: "rev r = p @ q"
      by (auto simp: suffix_def)
    then have "r = rev q @ rev p"
      by (metis rev_append rev_rev_ident)
    then have hdeq: "hd (rev q) = hd r" and rne: "r \<noteq> []"
      using False by auto
    have "lead_ok (hd r)"
      using rne unfolding r_def using hd_dropWhile [of "\<lambda>c. \<not> lead_ok c" s] by simp
    then show ?thesis
      using l hdeq by (simp add: res)
  qed
qed

lemma collapse_runs_hd: "s \<noteq> [] \<Longrightarrow> \<not> P (hd s) \<Longrightarrow> hd (collapse_runs P s) = hd s"
  by (cases s) auto

lemma collapse_runs_last:
  "s \<noteq> [] \<Longrightarrow> \<not> P (last s) \<Longrightarrow> collapse_runs P s \<noteq> [] \<and> last (collapse_runs P s) = last s"
proof (induction P s rule: collapse_runs.induct)
  case (1 P)
  then show ?case by simp
next
  case (2 P c cs)
  show ?case
  proof (cases "P c")
    case True
    with 2(3,4) have cs: "cs \<noteq> []" by auto
    then have lcs: "last cs = last (c # cs)" by simp
    have "dropWhile P cs \<noteq> []"
    proof
      assume "dropWhile P cs = []"
      then have "\<forall>x \<in> set cs. P x" by simp
      then have "P (last cs)" using cs by simp
      then show False using 2(4) lcs by simp
    qed
    moreover have "last (dropWhile P cs) = last cs"
      using calculation by (metis last_appendR takeWhile_dropWhile_id)
    ultimately show ?thesis
      using 2(1) [OF True] 2(4) True lcs by simp
  next
    case False
    show ?thesis
    proof (cases "cs = []")
      case True
      then show ?thesis using False by simp
    next
      case nonempty: False
      then show ?thesis using 2(2) [OF False] 2(4) False by simp
    qed
  qed
qed

lemma fix_confusion_Nil: "fix_confusion x s = [] \<longleftrightarrow> s = []"
  by (induction x s rule: fix_confusion.induct) auto

lemma fix_confusion_hd: "hd (fix_confusion x s) = hd s"
  by (induction x s rule: fix_confusion.induct) auto

lemma fix_confusion_last: "last (fix_confusion x s) = last s"
  by (induction x s rule: fix_confusion.induct) (auto simp: fix_confusion_Nil)

lemma clean_shape: "clean ing = [] \<or> (lead_ok (hd (clean ing)) \<and> trail_ok (last (clean ing)))"
proof -
  define e where "e = strip_ends (strip ing)"
  have c: "clean ing = fix_confusion (CHR ''O'') (fix_confusion (CHR ''l'') (collapse_runs is_space e))"
    by (simp add: clean_def e_def)
  show ?thesis
  proof (cases "e = []")
    case True
    then show ?thesis by (simp add: c)
  next
    case False
    then have lt: "lead_ok (hd e)" "trail_ok (last e)"
      using strip_ends_shape [of "strip ing"] by (simp_all add: e_def)
    from lt False have "hd (collapse_runs is_space e) = hd e"
      by (simp add: collapse_runs_hd lead_ok_not_space)
    moreover from lt False have "last (collapse_runs is_space e) = last e"
      by (simp add: collapse_runs_last trail_ok_not_space)
    ultimately show ?thesis
      using lt by (simp add: c fix_confusion_hd fix_confusion_last)
  qed
qed

lemma final_ingredients_shape:
  "t \<in> set (final_ingredients items) \<Longrightarrow> 2 \<le> length t \<and> lead_ok (hd t) \<and> trail_ok (last t)"
  using clean_shape by (auto simp: final_ingredients_def)

text \<open>
  Claim C10. Every token returned by \<open>parse_ingredients_from_ocr\<close> begins with an ASCII
  alphanumeric character or an opening parenthesis and ends with an ASCII alphanumeric
  character or a closing parenthesis; in particular it is not empty and carries no
  whitespace at either end.
\<close>

theorem tokens_begin_and_end_clean:
  "t \<in> set (parse_ingredients_from_ocr ocr_text) \<Longrightarrow>
     t \<noteq> [] \<and> (is_alnum (hd t) \<or> hd t = CHR ''('') \<and> (is_alnum (last t) \<or> last t = CHR '')'')
       \<and> \<not> is_space (hd t) \<and> \<not> is_space (last t)"
proof -
  assume "t \<in> set (parse_ingredients_from_ocr ocr_text)"
  then have "t \<in> set (final_ingredients (processed_items (normalize_text (extract_span ocr_text))))"
    by (simp add: parse_ingredients_from_ocr_def parse_span_def split: if_splits)
  then have "2 \<le> length t \<and> lead_ok (hd t) \<and> trail_ok (last t)"
    by (rule final_ingredients_shape)
  then show ?thesis
    using lead_ok_not_space [of "hd t"] trail_ok_not_space [of "last t"]
    by (auto simp: lead_ok_def trail_ok_def)
qed

theorem tokens_begin_and_end_clean_witness:
  "''Water'' \<in> set (parse_ingredients_from_ocr ''Ingredients: Water, Glycerin.'') \<and>
   (''Water'' \<noteq> [] \<and> (is_alnum (hd ''Water'') \<or> hd ''Water'' = CHR ''('') \<and>
      (is_alnum (last ''Water'') \<or> last ''Water'' = CHR '')'') \<and>
      \<not> is_space (hd ''Water'') \<and> \<not> is_space (last ''Water''))"
proof -
  have m: "''Water'' \<in> set (parse_ingredients_from_ocr ''Ingredients: Water, Glycerin.'')"
    by code_simp
  from tokens_begin_and_end_clean [OF m] m show ?thesis
    by blast
qed

section \<open>Properties of reconciliation\<close>

lemma found_matches_types: "m \<in> set (found_matches svc ws) \<Longrightarrow> match_type m = ''split_exact''"
  by (induction ws) (auto simp: Let_def split: if_splits)


lemma fuzzy_or_none_type:
  "match_type (fuzzy_or_none svc kind t) =
     (if ingredient_found (get_ingredient_data svc t False) then kind else ''no_match'')"
  by (simp add: fuzzy_or_none_def no_match_result_def Let_def)

lemma fuzzy_or_none_original: "original (fuzzy_or_none svc kind t) = t"
  by (simp add: fuzzy_or_none_def no_match_result_def Let_def)


lemma resolved_original: "resolved svc t \<Longrightarrow> original (smart_analyze svc t) = t"
proof -
  assume r: "resolved svc t"
  show ?thesis
  proof (cases "exact_hit (analyze_ingredient svc t)")
    case True
    then show ?thesis by (simp add: smart_analyze_def Let_def)
  next
    case direct: False
    let ?f = "if length (split_words t) > 1 then found_matches svc (split_words t) else []"
    show ?thesis
    proof (cases ?f)
      case Nil
      then show ?thesis
        using direct by (simp add: smart_analyze_def Let_def fuzzy_or_none_original)
    next
      case (Cons m ms)
      then have "m \<in> set (found_matches svc (split_words t))"
        by (auto split: if_splits)
      then have "match_type m = ''split_exact''"
        by (rule found_matches_types)
      moreover have "smart_analyze svc t = m"
        using direct Cons by (simp add: smart_analyze_def Let_def)
      ultimately show ?thesis
        using r by (simp add: resolved_def)
    qed
  qed
qed

lemma phase1_eq:
  "phase1 svc ts = (map (smart_analyze svc) (filter (resolved svc) ts),
                    filter (\<lambda>t. \<not> resolved svc t) ts)"
  by (induction ts) (simp_all add: Let_def resolved_def)

lemma combine_loop_stop: "\<not> i + 1 < length u \<Longrightarrow> combine_loop svc u i = ([], i)"
  by (subst combine_loop.simps) simp

lemma combine_loop_step:
  assumes "i + 1 < length u"
  shows "(\<exists>r rs j. combine_loop svc u i = (r # rs, j) \<and> combine_loop svc u (i + 2) = (rs, j) \<and>
             original r = u ! i @ '' + '' @ u ! (i + 1) \<and>
             match_type r \<in> set [''combined_exact'', ''combined_comma_exact'']) \<or>
         combine_loop svc u i = combine_loop svc u (i + 1)"
proof -
  obtain rs j where rec: "combine_loop svc u (i + 2) = (rs, j)"
    by (cases "combine_loop svc u (i + 2)") auto
  note unf = combine_loop.simps [of svc u i]
  show ?thesis
    unfolding unf using assms rec by (simp add: Let_def)
qed

lemma combine_loop_shape:
  "combine_loop svc u i = (rs, j) \<Longrightarrow>
     \<exists>pairs. map original rs = map (\<lambda>k. u ! k @ '' + '' @ u ! (k + 1)) pairs \<and>
       sorted_wrt (\<lambda>k k'. k + 1 < k') pairs \<and>
       (\<forall>k \<in> set pairs. i \<le> k \<and> k + 1 < j \<and> k + 1 < length u) \<and> i \<le> j \<and>
       (\<forall>r \<in> set rs. match_type r \<in> set [''combined_exact'', ''combined_comma_exact''])"
proof (induction "length u - i" arbitrary: i rs j rule: less_induct)
  case less
  show ?case
  proof (cases "i + 1 < length u")
    case False
    then have "rs = []" "j = i"
      using less.prems combine_loop_stop [of i u svc] by simp_all
    then show ?thesis by simp
  next
    case True
    from combine_loop_step [OF True, of svc] show ?thesis
    proof (elim disjE exE conjE)
      fix r rs' j'
      assume eq: "combine_loop svc u i = (r # rs', j')"
        and rec: "combine_loop svc u (i + 2) = (rs', j')"
        and orig: "original r = u ! i @ '' + '' @ u ! (i + 1)"
        and ty: "match_type r \<in> set [''combined_exact'', ''combined_comma_exact'']"
      have "length u - (i + 2) < length u - i" using True by simp
      from less.hyps [OF this rec] obtain pairs where
        p: "map original rs' = map (\<lambda>k. u ! k @ '' + '' @ u ! (k + 1)) pairs"
           "sorted_wrt (\<lambda>k k'. k + 1 < k') pairs"
           "\<forall>k \<in> set pairs. i + 2 \<le> k \<and> k + 1 < j' \<and> k + 1 < length u" "i + 2 \<le> j'"
           "\<forall>r \<in> set rs'. match_type r \<in> set [''combined_exact'', ''combined_comma_exact'']"
        by blast
      have rs: "rs = r # rs'" "j = j'"
        using less.prems eq by simp_all
      have "map original rs = map (\<lambda>k. u ! k @ '' + '' @ u ! (k + 1)) (i # pairs)"
        using p(1) orig rs by simp
      moreover have "sorted_wrt (\<lambda>k k'. k + 1 < k') (i # pairs)"
        using p(2,3) by auto
      moreover have "\<forall>k \<in> set (i # pairs). i \<le> k \<and> k + 1 < j \<and> k + 1 < length u"
        using p(3,4) True rs by auto
      moreover have "i \<le> j" using p(4) rs by simp
      moreover have "\<forall>r \<in> set rs. match_type r \<in> set [''combined_exact'', ''combined_comma_exact'']"
        using p(5) ty rs by auto
      ultimately show ?thesis by blast
    next
      assume eq: "combine_loop svc u i = combine_loop svc u (i + 1)"
      have "length u - (i + 1) < length u - i" using True by simp
      moreover have "combine_loop svc u (i + 1) = (rs, j)" using less.prems eq by simp
      ultimately obtain pairs where
        p: "map original rs = map (\<lambda>k. u ! k @ '' + '' @ u ! (k + 1)) pairs"
           "sorted_wrt (\<lambda>k k'. k + 1 < k') pairs"
           "\<forall>k \<in> set pairs. i + 1 \<le> k \<and> k + 1 < j \<and> k + 1 < length u" "i + 1 \<le> j"
           "\<forall>r \<in> set rs. match_type r \<in> set [''combined_exact'', ''combined_comma_exact'']"
        using less.hyps [of "i + 1" rs j] by blast
      have "\<forall>k \<in> set pairs. i \<le> k \<and> k + 1 < j \<and> k + 1 < length u"
        using p(3) by auto
      moreover have "i \<le> j" using p(4) by simp
      ultimately show ?thesis using p(1,2,5) by blast
    qed
  qed
qed

lemma final_loop_original: "map original (final_loop svc u i) = map (\<lambda>k. u ! k) [i..<length u]"
proof (induction "length u - i" arbitrary: i rule: less_induct)
  case less
  show ?case
  proof (cases "i < length u")
    case False
    then show ?thesis by (subst final_loop.simps) simp
  next
    case True
    then have "length u - (i + 1) < length u - i" by simp
    from less.hyps [OF this] have "map original (final_loop svc u (i + 1)) = map (\<lambda>k. u ! k) [i + 1..<length u]" .
    moreover have "[i..<length u] = i # [i + 1..<length u]"
      using True by (simp add: upt_conv_Cons)
    moreover have "final_loop svc u i =
        fuzzy_or_none svc ''final_fuzzy'' (u ! i) # final_loop svc u (i + 1)"
      using True by (subst final_loop.simps) simp
    ultimately show ?thesis
      by (simp add: fuzzy_or_none_original)
  qed
qed

lemma final_loop_types:
  "r \<in> set (final_loop svc u i) \<Longrightarrow> match_type r \<in> set [''final_fuzzy'', ''no_match'']"
proof (induction "length u - i" arbitrary: i rule: less_induct)
  case less
  show ?case
  proof (cases "i < length u")
    case False
    then have "final_loop svc u i = []" by (subst final_loop.simps) simp
    then show ?thesis using less.prems by simp
  next
    case True
    then have lt: "length u - (i + 1) < length u - i" by simp
    have "final_loop svc u i = fuzzy_or_none svc ''final_fuzzy'' (u ! i) # final_loop svc u (i + 1)"
      using True by (subst final_loop.simps) simp
    then consider "r = fuzzy_or_none svc ''final_fuzzy'' (u ! i)" | "r \<in> set (final_loop svc u (i + 1))"
      using less.prems by auto
    then show ?thesis
    proof cases
      case 1
      then show ?thesis by (simp add: fuzzy_or_none_type)
    next
      case 2
      then show ?thesis using less.hyps [OF lt] by simp
    qed
  qed
qed

lemma smart_analyze_list_split:
  "\<exists>rs. smart_analyze_list svc ts = map (smart_analyze svc) (filter (resolved svc) ts) @ rs \<and>
     (\<exists>pairs j. map original rs =
          map (\<lambda>k. filter (\<lambda>t. \<not> resolved svc t) ts ! k @ '' + '' @
                    filter (\<lambda>t. \<not> resolved svc t) ts ! (k + 1)) pairs @
          map (\<lambda>k. filter (\<lambda>t. \<not> resolved svc t) ts ! k) [j..<length (filter (\<lambda>t. \<not> resolved svc t) ts)] \<and>
        sorted_wrt (\<lambda>k k'. k + 1 < k') pairs \<and>
        (\<forall>k \<in> set pairs. k + 1 < j \<and> k + 1 < length (filter (\<lambda>t. \<not> resolved svc t) ts)) \<and>
        (\<forall>r \<in> set rs. match_type r \<in> set [''combined_exact'', ''combined_comma_exact''] \<longrightarrow>
            original r \<in> (\<lambda>k. filter (\<lambda>t. \<not> resolved svc t) ts ! k @ '' + '' @
                    filter (\<lambda>t. \<not> resolved svc t) ts ! (k + 1)) ` set pairs))"
proof -
  define u where "u = filter (\<lambda>t. \<not> resolved svc t) ts"
  define res where "res = map (smart_analyze svc) (filter (resolved svc) ts)"
  have p1: "phase1 svc ts = (res, u)"
    by (simp add: phase1_eq res_def u_def)
  show ?thesis
  proof (cases "2 \<le> length u")
    case False
    then have "smart_analyze_list svc ts = res @ []"
      using p1 by (simp add: smart_analyze_list_def)
    moreover have "map original ([]::match_result list) =
        map (\<lambda>k. u ! k @ '' + '' @ u ! (k + 1)) [] @ map (\<lambda>k. u ! k) [length u..<length u]"
      by simp
    ultimately show ?thesis
      unfolding u_def [symmetric] res_def [symmetric]
      by (intro exI [of _ "[]"] conjI exI [of _ "length u"]) simp_all
  next
    case True
    obtain cs j where cl: "combine_loop svc u 0 = (cs, j)"
      by (cases "combine_loop svc u 0") auto
    from combine_loop_shape [OF cl] obtain pairs where
      p: "map original cs = map (\<lambda>k. u ! k @ '' + '' @ u ! (k + 1)) pairs"
         "sorted_wrt (\<lambda>k k'. k + 1 < k') pairs"
         "\<forall>k \<in> set pairs. 0 \<le> k \<and> k + 1 < j \<and> k + 1 < length u"
         "\<forall>r \<in> set cs. match_type r \<in> set [''combined_exact'', ''combined_comma_exact'']"
      by blast
    define rs where "rs = cs @ final_loop svc u j"
    have eq: "smart_analyze_list svc ts = res @ rs"
      using p1 True cl by (simp add: smart_analyze_list_def rs_def)
    have orig: "map original rs =
        map (\<lambda>k. u ! k @ '' + '' @ u ! (k + 1)) pairs @ map (\<lambda>k. u ! k) [j..<length u]"
      by (simp add: rs_def p(1) final_loop_original)
    have comb: "\<forall>r \<in> set rs. match_type r \<in> set [''combined_exact'', ''combined_comma_exact''] \<longrightarrow>
            original r \<in> (\<lambda>k. u ! k @ '' + '' @ u ! (k + 1)) ` set pairs"
    proof (intro ballI impI)
      fix r
      assume r: "r \<in> set rs" and ty: "match_type r \<in> set [''combined_exact'', ''combined_comma_exact'']"
      have "r \<notin> set (final_loop svc u j)"
        using final_loop_types [of r svc u j] ty by auto
      then have "r \<in> set cs" using r by (simp add: rs_def)
      then have "original r \<in> set (map original cs)" by simp
      then show "original r \<in> (\<lambda>k. u ! k @ '' + '' @ u ! (k + 1)) ` set pairs"
        by (simp add: p(1))
    qed
    show ?thesis
      unfolding u_def [symmetric] res_def [symmetric]
      using eq orig p(2,3) comb by blast
  qed
qed

section \<open>The claims about reconciliation\<close>






text \<open>
  Claim C2, as the code has it. The output lists first, in input order, the tokens that
  \<open>smart_analyze\<close> resolved as exact or fuzzy. Behind them come the results of the combine
  phase and then those of the final phase; they refer to strictly increasing positions of
  the list of the other tokens, which is in input order, and a combined pair appears once,
  at the position of its first constituent.
\<close>

theorem results_order:
  fixes svc ts
  defines "u \<equiv> filter (\<lambda>t. \<not> resolved svc t) ts"
  shows "\<exists>pairs j. map original (smart_analyze_list svc ts) =
           filter (resolved svc) ts @
           map (\<lambda>k. u ! k @ '' + '' @ u ! (k + 1)) pairs @ map (\<lambda>k. u ! k) [j..<length u] \<and>
         sorted_wrt (\<lambda>k k'. k + 1 < k') pairs \<and>
         (\<forall>k \<in> set pairs. k + 1 < j \<and> k + 1 < length u)"
proof -
  from smart_analyze_list_split [of svc ts] obtain rs pairs j where
    eq: "smart_analyze_list svc ts = map (smart_analyze svc) (filter (resolved svc) ts) @ rs"
    and orig: "map original rs =
        map (\<lambda>k. u ! k @ '' + '' @ u ! (k + 1)) pairs @ map (\<lambda>k. u ! k) [j..<length u]"
    and srt: "sorted_wrt (\<lambda>k k'. k + 1 < k') pairs"
    and rng: "\<forall>k \<in> set pairs. k + 1 < j \<and> k + 1 < length u"
    unfolding u_def by blast
  have "map original (map (smart_analyze svc) (filter (resolved svc) ts)) = filter (resolved svc) ts"
    by (induction ts) (simp_all add: resolved_original)
  then have "map original (smart_analyze_list svc ts) =
           filter (resolved svc) ts @
           map (\<lambda>k. u ! k @ '' + '' @ u ! (k + 1)) pairs @ map (\<lambda>k. u ! k) [j..<length u]"
    using eq orig by simp
  then show ?thesis using srt rng by blast
qed

theorem results_order_witness:
  "filter (resolved demo_service) [''Aaa'', ''Water'', ''Bbb''] = [''Water''] \<and>
   filter (\<lambda>t. \<not> resolved demo_service t) [''Aaa'', ''Water'', ''Bbb''] = [''Aaa'', ''Bbb''] \<and>
   (\<exists>pairs j. map original (smart_analyze_list demo_service [''Aaa'', ''Water'', ''Bbb'']) =
        [''Water''] @ map (\<lambda>k. [''Aaa'', ''Bbb''] ! k @ '' + '' @ [''Aaa'', ''Bbb''] ! (k + 1)) pairs @
        map (\<lambda>k. [''Aaa'', ''Bbb''] ! k) [j..<length [''Aaa'', ''Bbb'']] \<and>
      sorted_wrt (\<lambda>k k'. k + 1 < k') pairs \<and>
      (\<forall>k \<in> set pairs. k + 1 < j \<and> k + 1 < length [''Aaa'', ''Bbb'']))"
proof -
  have f1: "filter (resolved demo_service) [''Aaa'', ''Water'', ''Bbb''] = [''Water'']"
    by code_simp
  have f2: "filter (\<lambda>t. \<not> resolved demo_service t) [''Aaa'', ''Water'', ''Bbb''] = [''Aaa'', ''Bbb'']"
    by code_simp
  show ?thesis
    using results_order [of demo_service "[''Aaa'', ''Water'', ''Bbb'']"] f1 f2 by simp
qed

text \<open>
  Claim C2 as stated fails: the third token is reported first, and the pair made of the first
  and the second token behind it.
\<close>

theorem results_out_of_order_counterexample:
  "map original (smart_analyze_list demo_service [''Glyceryl'', ''Stearate'', ''Water'']) =
     [''Water'', ''Glyceryl + Stearate'']"
  by code_simp

text \<open>
  Claim C3 fails on the code. A list whose only token finds no match in any phase yields no
  result at all, and of three such tokens only the last one is reported: both loops of phase
  2 sit under the test \<open>len(unmatched) >= 2\<close>, and the final loop starts where the combine
  loop stopped.
\<close>

theorem unmatched_tokens_dropped:
  "smart_analyze_list demo_service [''Xyzzqqplorp''] = [] \<and>
   map original (smart_analyze_list demo_service [''Aaa'', ''Bbb'', ''Ccc'']) = [''Ccc'']"
  by code_simp

text \<open>
  Claim C4 fails on the code. The query and the name of the record that \<open>find_matches\<close>
  returns are equal without regard to case, yet the direct phase reports no exact match,
  because \<open>get_ingredient_data\<close> decides \<open>exact_match\<close> by the case-sensitive similarity
  of the two strings; the token ends as a fuzzy match.
\<close>

theorem case_differs_not_exact:
  "lower ''Talc'' = lower ''TALC'' \<and>
   info_name (analyze_ingredient demo_service ''Talc'') = Some ''TALC'' \<and>
   ingredient_found (analyze_ingredient demo_service ''Talc'') \<and>
   data_match_type (analyze_ingredient demo_service ''Talc'') = Some ''no_exact_match'' \<and>
   match_type (smart_analyze demo_service ''Talc'') = ''fuzzy''"
  by code_simp

section \<open>Properties of text normalisation\<close>

lemma filter_takeWhile_none: "(\<And>c. P c \<Longrightarrow> \<not> K c) \<Longrightarrow> filter K (takeWhile P xs) = []"
  by (induction xs) auto

lemma filter_word_run: "filter K xs = filter K (takeWhile P xs) @ filter K (dropWhile P xs)"
  by (metis filter_append takeWhile_dropWhile_id)

lemma filter_split_run:
  "(\<And>c. P c \<Longrightarrow> \<not> K c) \<Longrightarrow> filter K xs = filter K (dropWhile P xs)"
  using filter_word_run [of K xs P] filter_takeWhile_none [of P K xs] by simp

lemma collapse_runs_filter:
  assumes "\<And>c. P c \<Longrightarrow> \<not> K c" and "\<not> K (CHR '' '')"
  shows "filter K (collapse_runs P s) = filter K s"
proof (induction "length s" arbitrary: s rule: less_induct)
  case less
  show ?case
  proof (cases s)
    case Nil
    then show ?thesis by simp
  next
    case (Cons c cs)
    show ?thesis
    proof (cases "P c")
      case True
      have "length (dropWhile P cs) < length s"
        using Cons length_dropWhile_le [of P cs] by simp
      then have "filter K (collapse_runs P (dropWhile P cs)) = filter K (dropWhile P cs)"
        by (rule less.hyps)
      then show ?thesis
        using Cons True assms filter_split_run [of P K cs] by simp
    next
      case False
      have "filter K (collapse_runs P cs) = filter K cs"
        using Cons by (intro less.hyps) simp
      then show ?thesis using Cons False by simp
    qed
  qed
qed

lemma close_up_after_paren_filter:
  assumes "\<And>c. is_space c \<Longrightarrow> \<not> K c"
  shows "filter K (close_up_after_paren s) = filter K s"
proof (induction "length s" arbitrary: s rule: less_induct)
  case less
  show ?case
  proof (cases s)
    case Nil
    then show ?thesis by simp
  next
    case (Cons c cs)
    show ?thesis
    proof (cases "c = CHR ''(''")
      case True
      have "length (dropWhile is_space cs) < length s"
        using Cons length_dropWhile_le [of is_space cs] by simp
      then have "filter K (close_up_after_paren (dropWhile is_space cs)) = filter K (dropWhile is_space cs)"
        by (rule less.hyps)
      then show ?thesis
        using Cons True assms filter_split_run [of is_space K cs] by simp
    next
      case False
      have "filter K (close_up_after_paren cs) = filter K cs"
        using Cons by (intro less.hyps) simp
      then show ?thesis using Cons False by simp
    qed
  qed
qed

lemma close_up_before_paren_filter:
  assumes "\<And>c. is_space c \<Longrightarrow> \<not> K c"
  shows "filter K (close_up_before_paren s) = filter K s"
proof (induction "length s" arbitrary: s rule: less_induct)
  case less
  show ?case
  proof (cases s)
    case Nil
    then show ?thesis by simp
  next
    case (Cons c cs)
    show ?thesis
    proof (cases "is_space c")
      case False
      have "filter K (close_up_before_paren cs) = filter K cs"
        using Cons by (intro less.hyps) simp
      then show ?thesis using Cons False by simp
    next
      case True
      note sp = filter_split_run [of is_space K cs] filter_takeWhile_none [of is_space K cs]
      show ?thesis
      proof (cases "dropWhile is_space cs")
        case Nil
        have "close_up_before_paren s = c # takeWhile is_space cs"
          using \<open>s = c # cs\<close> True by (simp add: Nil)
        moreover have "filter K cs = []"
          using sp assms by (simp add: Nil)
        ultimately show ?thesis
          using \<open>s = c # cs\<close> True assms sp by simp
      next
        case (Cons h r)
        have "length r < length cs"
          using Cons dropWhile_Cons_shorter [of h r is_space cs] by simp
        then have "filter K (close_up_before_paren r) = filter K r"
          using \<open>s = c # cs\<close> by (intro less.hyps) simp
        moreover have "close_up_before_paren s =
            (if h = CHR '')'' then CHR '')'' # close_up_before_paren r
             else c # takeWhile is_space cs @ h # close_up_before_paren r)"
          using \<open>s = c # cs\<close> True by (simp add: Cons)
        moreover have "filter K cs = filter K (h # r)"
          using sp assms by (simp add: Cons)
        ultimately show ?thesis
          using \<open>s = c # cs\<close> True assms sp by simp
      qed
    qed
  qed
qed

lemma join_linebreak_hyphen_filter:
  assumes sp: "\<And>c. is_space c \<Longrightarrow> \<not> K c" and hy: "\<not> K (CHR ''-'')"
  shows "filter K (join_linebreak_hyphen s) = filter K s"
proof (induction "length s" arbitrary: s rule: less_induct)
  case less
  show ?case
  proof (cases s)
    case Nil
    then show ?thesis by simp
  next
    case (Cons c cs)
    show ?thesis
    proof (cases "is_word c")
      case False
      have "filter K (join_linebreak_hyphen cs) = filter K cs"
        using Cons by (intro less.hyps) simp
      then show ?thesis using Cons False by simp
    next
      case True
      define w where "w = takeWhile is_word s"
      define r where "r = dropWhile is_word s"
      have fs: "filter K s = filter K w @ filter K r"
        unfolding w_def r_def by (rule filter_word_run)
      have rlen: "length r < length s"
        unfolding r_def using Cons True length_dropWhile_le [of is_word cs] by simp
      show ?thesis
      proof (cases r)
        case Nil
        have dn: "dropWhile is_word cs = []"
          using Nil \<open>s = c # cs\<close> True unfolding r_def by simp
        have "join_linebreak_hyphen s = w"
          unfolding w_def \<open>s = c # cs\<close> join_linebreak_hyphen.simps(2)
          using True by (simp del: join_linebreak_hyphen.simps add: Let_def dn)
        then show ?thesis using fs Nil by simp
      next
        case (Cons h r1)
        define r2 where "r2 = dropWhile is_space r1"
        let ?cond = "h = CHR ''-'' \<and> (\<exists>x \<in> set (takeWhile is_space r1). is_nl x) \<and>
                     takeWhile is_word r2 \<noteq> []"
        have unf: "join_linebreak_hyphen s =
            (if ?cond then w @ takeWhile is_word r2 @ join_linebreak_hyphen (dropWhile is_word r2)
             else w @ join_linebreak_hyphen r)"
          unfolding w_def r_def r2_def \<open>s = c # cs\<close> join_linebreak_hyphen.simps(2)
          using True Cons [unfolded r_def \<open>s = c # cs\<close>]
          by (auto simp del: join_linebreak_hyphen.simps simp add: Let_def)
        show ?thesis
        proof (cases ?cond)
          case False
          have "join_linebreak_hyphen s = w @ join_linebreak_hyphen r"
            unfolding unf using False by (rule if_not_P)
          moreover have "filter K (join_linebreak_hyphen r) = filter K r"
            using rlen by (rule less.hyps)
          ultimately show ?thesis using fs by simp
        next
          case yes: True
          have "length (dropWhile is_word r2) \<le> length r1"
            unfolding r2_def by (rule dropWhile2_shorter)
          then have "length (dropWhile is_word r2) < length s"
            using rlen Cons by simp
          then have ih: "filter K (join_linebreak_hyphen (dropWhile is_word r2)) =
              filter K (dropWhile is_word r2)"
            by (rule less.hyps)
          have "filter K r = filter K r1"
            using Cons yes hy by simp
          also have "\<dots> = filter K r2"
            unfolding r2_def using sp by (rule filter_split_run)
          also have "\<dots> = filter K (takeWhile is_word r2) @ filter K (dropWhile is_word r2)"
            by (rule filter_word_run)
          finally have fr: "filter K r =
              filter K (takeWhile is_word r2) @ filter K (dropWhile is_word r2)" .
          have "join_linebreak_hyphen s =
              w @ takeWhile is_word r2 @ join_linebreak_hyphen (dropWhile is_word r2)"
            unfolding unf using yes by (rule if_P)
          then show ?thesis
            using fs ih fr by simp
        qed
      qed
    qed
  qed
qed

lemma join_spaced_hyphen_filter:
  assumes sp: "\<And>c. is_space c \<Longrightarrow> \<not> K c"
  shows "filter K (join_spaced_hyphen s) = filter K s"
proof (induction "length s" arbitrary: s rule: less_induct)
  case less
  show ?case
  proof (cases s)
    case Nil
    then show ?thesis by simp
  next
    case (Cons c cs)
    show ?thesis
    proof (cases "is_word c")
      case False
      have "filter K (join_spaced_hyphen cs) = filter K cs"
        using Cons by (intro less.hyps) simp
      then show ?thesis using Cons False by simp
    next
      case True
      define w where "w = takeWhile is_word s"
      define r where "r = dropWhile is_word s"
      define r1 where "r1 = dropWhile is_space r"
      have fs: "filter K s = filter K w @ filter K r"
        unfolding w_def r_def by (rule filter_word_run)
      have rlen: "length r < length s"
        unfolding r_def using Cons True length_dropWhile_le [of is_word cs] by simp
      have ihr: "filter K (join_spaced_hyphen r) = filter K r"
        using rlen by (rule less.hyps)
      show ?thesis
      proof (cases r1)
        case Nil
        have rr: "r = dropWhile is_word cs"
          using \<open>s = c # cs\<close> True unfolding r_def by simp
        have dn: "dropWhile is_space (dropWhile is_word cs) = []"
          using Nil unfolding r1_def rr by simp
        have "join_spaced_hyphen s = w @ join_spaced_hyphen r"
          unfolding w_def rr \<open>s = c # cs\<close> join_spaced_hyphen.simps(2)
          using True by (simp del: join_spaced_hyphen.simps add: Let_def dn)
        then show ?thesis using fs ihr by simp
      next
        case (Cons h r2)
        define r3 where "r3 = dropWhile is_space r2"
        let ?cond = "takeWhile is_space r \<noteq> [] \<and> h = CHR ''-'' \<and> takeWhile is_space r2 \<noteq> [] \<and>
                     takeWhile is_word r3 \<noteq> []"
        have unf: "join_spaced_hyphen s =
            (if ?cond then w @ CHR ''-'' # takeWhile is_word r3 @ join_spaced_hyphen (dropWhile is_word r3)
             else w @ join_spaced_hyphen r)"
          unfolding w_def r1_def r_def r3_def \<open>s = c # cs\<close> join_spaced_hyphen.simps(2)
          using True Cons [unfolded r1_def r_def \<open>s = c # cs\<close>]
          by (auto simp del: join_spaced_hyphen.simps simp add: Let_def)
        show ?thesis
        proof (cases ?cond)
          case False
          have "join_spaced_hyphen s = w @ join_spaced_hyphen r"
            unfolding unf using False by (rule if_not_P)
          then show ?thesis using fs ihr by simp
        next
          case yes: True
          have "length r2 < length r"
            using Cons dropWhile_Cons_shorter [of h r2 is_space r] unfolding r1_def by simp
          moreover have "length (dropWhile is_word r3) \<le> length r2"
            unfolding r3_def by (rule dropWhile2_shorter)
          ultimately have "length (dropWhile is_word r3) < length s"
            using rlen by simp
          then have ih: "filter K (join_spaced_hyphen (dropWhile is_word r3)) =
              filter K (dropWhile is_word r3)"
            by (rule less.hyps)
          have "filter K r = filter K r1"
            unfolding r1_def using sp by (rule filter_split_run)
          also have "\<dots> = filter K [CHR ''-''] @ filter K r2"
            using Cons yes by simp
          also have "filter K r2 = filter K r3"
            unfolding r3_def using sp by (rule filter_split_run)
          also have "\<dots> = filter K (takeWhile is_word r3) @ filter K (dropWhile is_word r3)"
            by (rule filter_word_run)
          finally have fr: "filter K r = filter K [CHR ''-''] @
              filter K (takeWhile is_word r3) @ filter K (dropWhile is_word r3)" .
          have "join_spaced_hyphen s =
              w @ CHR ''-'' # takeWhile is_word r3 @ join_spaced_hyphen (dropWhile is_word r3)"
            unfolding unf using yes by (rule if_P)
          then show ?thesis
            using fs ih fr by simp
        qed
      qed
    qed
  qed
qed

lemma normalize_text_filter:
  assumes sp: "\<And>c. is_space c \<Longrightarrow> \<not> K c" and hy: "\<not> K (CHR ''-'')"
  shows "filter K (normalize_text t) = filter K (separators_to_commas t)"
proof -
  have s: "\<not> K (CHR '' '')" using sp [of "CHR '' ''"] by (simp add: is_space_def)
  have nl: "\<And>c. is_nl c \<Longrightarrow> \<not> K c"
    using sp by (auto simp: is_nl_def is_space_def)
  have m: "\<And>x. filter K (separators_to_commas x) = filter K (map comma_for_separator x)"
    by (simp add: separators_to_commas_def)
  have g: "\<And>x y. filter (K \<circ> comma_for_separator) x = filter (K \<circ> comma_for_separator) y \<Longrightarrow>
      filter K (separators_to_commas x) = filter K (separators_to_commas y)"
    by (simp add: m filter_map)
  have sp': "\<And>c. is_space c \<Longrightarrow> \<not> (K \<circ> comma_for_separator) c"
    using sp by (auto simp: comma_for_separator_def is_space_def)
  have hy': "\<not> (K \<circ> comma_for_separator) (CHR ''-'')"
    using hy by (simp add: comma_for_separator_def)
  have s': "\<not> (K \<circ> comma_for_separator) (CHR '' '')"
    using s by (simp add: comma_for_separator_def)
  have nl': "\<And>c. is_nl c \<Longrightarrow> \<not> (K \<circ> comma_for_separator) c"
    using sp' by (auto simp: is_nl_def is_space_def)
  have "filter (K \<circ> comma_for_separator)
          (collapse_runs is_space (collapse_runs is_nl (join_spaced_hyphen (join_linebreak_hyphen t))))
        = filter (K \<circ> comma_for_separator) t"
    using collapse_runs_filter [of is_space "K \<circ> comma_for_separator", OF sp' s']
      collapse_runs_filter [of is_nl "K \<circ> comma_for_separator", OF nl' s']
      join_spaced_hyphen_filter [of "K \<circ> comma_for_separator", OF sp']
      join_linebreak_hyphen_filter [of "K \<circ> comma_for_separator", OF sp' hy']
    by simp
  from g [OF this] show ?thesis
    using close_up_before_paren_filter [of K, OF sp] close_up_after_paren_filter [of K, OF sp]
    by (simp add: normalize_text_def)
qed

section \<open>The claims about text normalisation\<close>

text \<open>
  Claim C8, as the code has it. Apart from whitespace and hyphens, which the other steps
  move, the normalised text is the input with one comma in the place of each semicolon and of
  each colon: a run of separators becomes as many commas, and a vertical bar stays. The
  normalised text holds no semicolon and no colon.
\<close>

theorem separators_become_commas:
  "filter (\<lambda>c. \<not> is_space c \<and> c \<noteq> CHR ''-'') (normalize_text t) =
     map comma_for_separator (filter (\<lambda>c. \<not> is_space c \<and> c \<noteq> CHR ''-'') t) \<and>
   CHR '';'' \<notin> set (normalize_text t) \<and> CHR '':'' \<notin> set (normalize_text t)"
proof -
  let ?K = "\<lambda>c. \<not> is_space c \<and> c \<noteq> CHR ''-''"
  have "filter ?K (normalize_text t) = filter ?K (separators_to_commas t)"
    by (rule normalize_text_filter) simp_all
  also have "\<dots> = map comma_for_separator (filter (?K \<circ> comma_for_separator) t)"
    by (simp add: separators_to_commas_def filter_map)
  also have "?K \<circ> comma_for_separator = ?K"
    by (rule ext) (simp add: comma_for_separator_def is_space_def)
  finally have eq: "filter ?K (normalize_text t) = map comma_for_separator (filter ?K t)" .
  have "x \<in> set (normalize_text t) \<Longrightarrow> x \<noteq> CHR '';'' \<and> x \<noteq> CHR '':''" for x
  proof (cases "?K x")
    case False
    then show ?thesis by (auto simp: is_space_def)
  next
    case True
    assume "x \<in> set (normalize_text t)"
    then have "x \<in> set (filter ?K (normalize_text t))" using True by simp
    then have "x \<in> comma_for_separator ` set (filter ?K t)" by (simp add: eq)
    then show ?thesis by (auto simp: comma_for_separator_def)
  qed
  then have "CHR '';'' \<notin> set (normalize_text t)" "CHR '':'' \<notin> set (normalize_text t)"
    by blast+
  then show ?thesis using eq by simp
qed

theorem separators_become_commas_witness:
  "filter (\<lambda>c. \<not> is_space c \<and> c \<noteq> CHR ''-'') (normalize_text ''Aqua ; Talc: Zinc - PCA'') = ''Aqua,Talc,ZincPCA'' \<and>
   map comma_for_separator (filter (\<lambda>c. \<not> is_space c \<and> c \<noteq> CHR ''-'') ''Aqua ; Talc: Zinc - PCA'') = ''Aqua,Talc,ZincPCA'' \<and>
   CHR '';'' \<notin> set (normalize_text ''Aqua ; Talc: Zinc - PCA'') \<and>
   CHR '':'' \<notin> set (normalize_text ''Aqua ; Talc: Zinc - PCA'')"
proof -
  have "map comma_for_separator (filter (\<lambda>c. \<not> is_space c \<and> c \<noteq> CHR ''-'') ''Aqua ; Talc: Zinc - PCA'')
          = ''Aqua,Talc,ZincPCA''"
    by code_simp
  then show ?thesis
    using separators_become_commas [of "''Aqua ; Talc: Zinc - PCA''"] by simp
qed

text \<open>
  Claim C8 as stated fails: a run of two semicolons becomes two commas, and the vertical bar
  is not replaced.
\<close>

theorem separator_run_counterexample:
  "normalize_text ''Aqua;;Talc|Zinc'' = ''Aqua,,Talc|Zinc''"
  by code_simp

text \<open>
  Claim C7 fails on the code. Of two spaced hyphens in a row the first pass joins only the
  first, because the match takes the middle word with it; a second pass joins the other, so
  normalising twice differs from normalising once.
\<close>

theorem normalize_twice_differs:
  "normalize_text ''a - b - c'' = ''a-b - c'' \<and>
   normalize_text (normalize_text ''a - b - c'') = ''a-b-c''"
  by code_simp

section \<open>The claims about the final token list and the rate limit\<close>

lemma unique_ingredients_first:
  "t \<in> set (unique_ingredients seen xs) \<Longrightarrow>
     lower t \<notin> seen \<and> find (\<lambda>x. lower x = lower t) xs = Some t"
proof (induction xs arbitrary: seen)
  case Nil
  then show ?case by simp
next
  case (Cons ing rest)
  show ?case
  proof (cases "lower ing \<in> seen")
    case True
    then have "t \<in> set (unique_ingredients seen rest)" using Cons.prems by simp
    then have "lower t \<notin> seen \<and> find (\<lambda>x. lower x = lower t) rest = Some t"
      by (rule Cons.IH)
    then show ?thesis using True by auto
  next
    case False
    then consider "t = ing" | "t \<in> set (unique_ingredients (insert (lower ing) seen) rest)"
      using Cons.prems by auto
    then show ?thesis
    proof cases
      case 1
      then show ?thesis using False by simp
    next
      case 2
      then have "lower t \<notin> insert (lower ing) seen \<and> find (\<lambda>x. lower x = lower t) rest = Some t"
        by (rule Cons.IH)
      then show ?thesis by auto
    qed
  qed
qed

lemma unique_ingredients_distinct: "distinct (map lower (unique_ingredients seen xs))"
proof (induction xs arbitrary: seen)
  case Nil
  then show ?case by simp
next
  case (Cons ing rest)
  have "lower ing \<notin> lower ` set (unique_ingredients (insert (lower ing) seen) rest)"
  proof
    assume "lower ing \<in> lower ` set (unique_ingredients (insert (lower ing) seen) rest)"
    then obtain t where t: "t \<in> set (unique_ingredients (insert (lower ing) seen) rest)"
      and eq: "lower ing = lower t"
      by auto
    from unique_ingredients_first [OF t] have "lower t \<notin> insert (lower ing) seen" by simp
    then show False using eq by simp
  qed
  then show ?case using Cons.IH by simp
qed

lemma unique_ingredients_subseq: "subseq (unique_ingredients seen xs) xs"
  by (induction xs arbitrary: seen) auto

text \<open>
  Claim C5, as the code has it. \<open>parse_ingredients_from_ocr\<close> guarantees only that every token
  has at least two characters; it neither filters by a stop-list nor removes duplicates. The
  stop-list and the de-duplication are those of \<open>remove_non_ingredients\<close>: each token it
  returns has at least two characters, matches none of the non-ingredient patterns (so it is
  not made of digits and periods only), and is the first token of the input with its
  lower-cased spelling, in its own casing; the result is in input order and has no two
  entries equal without regard to case.
\<close>

theorem final_tokens_invariant:
  "(\<forall>t \<in> set (parse_ingredients_from_ocr ocr_text). 2 \<le> length t) \<and>
   (\<forall>t \<in> set (remove_non_ingredients xs).
       2 \<le> length t \<and> \<not> non_ingredient t \<and> find (\<lambda>x. lower x = lower t) xs = Some t) \<and>
   distinct (map lower (remove_non_ingredients xs)) \<and>
   subseq (remove_non_ingredients xs) xs"
proof -
  have a: "2 \<le> length t" if "t \<in> set (parse_ingredients_from_ocr ocr_text)" for t
  proof -
    from that
    have "t \<in> set (final_ingredients (processed_items (normalize_text (extract_span ocr_text))))"
      by (simp add: parse_ingredients_from_ocr_def parse_span_def split: if_splits)
    then show ?thesis
      using final_ingredients_shape by blast
  qed
  have b: "2 \<le> length t \<and> \<not> non_ingredient t \<and> find (\<lambda>x. lower x = lower t) xs = Some t"
    if t: "t \<in> set (remove_non_ingredients xs)" for t
  proof -
    from t have "t \<in> set (unique_ingredients {} xs)"
      by (simp add: remove_non_ingredients_def)
    then have "find (\<lambda>x. lower x = lower t) xs = Some t"
      using unique_ingredients_first by blast
    then show ?thesis
      using t by (simp add: remove_non_ingredients_def)
  qed
  have c: "distinct (map lower (remove_non_ingredients xs))"
    unfolding remove_non_ingredients_def
    using unique_ingredients_distinct [of "{}" xs] by (rule distinct_map_filter)
  have "subseq (remove_non_ingredients xs) (unique_ingredients {} xs)"
    unfolding remove_non_ingredients_def by simp
  then have d: "subseq (remove_non_ingredients xs) xs"
    using unique_ingredients_subseq subseq_order.order_trans by blast
  from a b c d show ?thesis by blast
qed

theorem final_tokens_invariant_witness:
  "parse_ingredients_from_ocr ''Aqua, Talc.'' = [''Aqua'', ''Talc''] \<and>
   2 \<le> length ''Aqua'' \<and> 2 \<le> length ''Talc'' \<and>
   remove_non_ingredients [''Aqua'', ''and'', ''AQUA'', ''12.5 %'', ''Talc''] = [''Aqua'', ''Talc''] \<and>
   find (\<lambda>x. lower x = lower ''Aqua'') [''Aqua'', ''and'', ''AQUA'', ''12.5 %'', ''Talc''] = Some ''Aqua'' \<and>
   find (\<lambda>x. lower x = lower ''Talc'') [''Aqua'', ''and'', ''AQUA'', ''12.5 %'', ''Talc''] = Some ''Talc'' \<and>
   distinct (map lower [''Aqua'', ''Talc'']) \<and>
   subseq [''Aqua'', ''Talc''] [''Aqua'', ''and'', ''AQUA'', ''12.5 %'', ''Talc'']"
proof -
  have p: "parse_ingredients_from_ocr ''Aqua, Talc.'' = [''Aqua'', ''Talc'']"
    by code_simp
  have r: "remove_non_ingredients [''Aqua'', ''and'', ''AQUA'', ''12.5 %'', ''Talc''] = [''Aqua'', ''Talc'']"
    by code_simp
  note inv = final_tokens_invariant [of "''Aqua, Talc.''"
      "[''Aqua'', ''and'', ''AQUA'', ''12.5 %'', ''Talc'']", unfolded p r]
  have a: "''Aqua'' \<in> set [''Aqua'', ''Talc'']" and b: "''Talc'' \<in> set [''Aqua'', ''Talc'']"
    by simp_all
  from inv a have fa: "2 \<le> length ''Aqua''"
    "find (\<lambda>x. lower x = lower ''Aqua'') [''Aqua'', ''and'', ''AQUA'', ''12.5 %'', ''Talc''] = Some ''Aqua''"
    by blast+
  from inv b have fb: "2 \<le> length ''Talc''"
    "find (\<lambda>x. lower x = lower ''Talc'') [''Aqua'', ''and'', ''AQUA'', ''12.5 %'', ''Talc''] = Some ''Talc''"
    by blast+
  from inv have d: "distinct (map lower [''Aqua'', ''Talc''])"
    and s: "subseq [''Aqua'', ''Talc''] [''Aqua'', ''and'', ''AQUA'', ''12.5 %'', ''Talc'']"
    by blast+
  show ?thesis
    using p r fa fb d s by blast
qed

text \<open>
  Claim C5 as stated fails for \<open>parse_ingredients_from_ocr\<close>: two tokens that differ in case
  only, a stop word and a bare number all reach the final list.
\<close>

theorem duplicates_and_stop_words_counterexample:
  "parse_ingredients_from_ocr ''Water, water, and, 123'' = [''Water'', ''water'', ''and'', ''123''] \<and>
   lower ''Water'' = lower ''water''"
  by code_simp

lemma one_client_keeps_interval:
  assumes "0 \<le> latency"
    and "make_request latency api w = (api1, w1)"
    and "make_request latency api1 w1 = (api2, w2)"
  shows "\<exists>t1 t2. sent w2 = sent w @ [t1, t2] \<and> rate_limit api \<le> t2 - t1"
  using assms by (auto simp: make_request_def Let_def split: if_splits)

text \<open>
  Claim C6 fails on the code of \<open>test3.smart_analyze\<close>. For a token whose direct query finds
  nothing, the fuzzy query leaves through a new client whose \<open>last_request_time\<close> is 0, so
  it does not wait: with a response time of 50 ms the two queries are 50 ms apart, under a
  rate limit of 1000 ms. \<open>IngredientAnalyzer.smart_analyze\<close>, which sends both through the
  one client, keeps them 1050 ms apart.
\<close>

theorem fresh_client_skips_rate_limit:
  "rate_limit new_client = 1000 \<and>
   gaps (sent (snd (snd (smart_analyze_timed True demo_service 50 ''Xyzzqqplorp'' new_client
                          \<lparr>now = 1700000000000, sent = []\<rparr>)))) = [50] \<and>
   gaps (sent (snd (snd (smart_analyze_timed False demo_service 50 ''Xyzzqqplorp'' new_client
                          \<lparr>now = 1700000000000, sent = []\<rparr>)))) = [1050]"
  by code_simp

section \<open>Every token comes from the span\<close>






















end
